theory Spec2Isabelle
  imports Main "HOL-Library.AList"
begin

section \<open>Data model of the notebook's backoff Markov chain\<close>

text \<open>
  The embedding follows the last three code cells of \<^verbatim>\<open>TEXTGENERATIONMC.ipynb\<close>
  (section "Backoff"): \<^verbatim>\<open>collect_dict(corpus, n_grams)\<close>,
  \<^verbatim>\<open>get_next_word(key_id, min_length)\<close> and
  \<^verbatim>\<open>generate_text(words, limit, min_length)\<close>.

  \<^item> A token is a Python \<^verbatim>\<open>str\<close>, here a \<open>string\<close>; a context is a tuple of
    tokens, here a \<open>string list\<close>.
  \<^item> A Python \<^verbatim>\<open>dict\<close> keeps its keys in insertion order and
    \<^verbatim>\<open>generate_text\<close> iterates over \<^verbatim>\<open>.keys()\<close>, so a dict is an association
    list: \<open>map_of\<close> reads a key, \<open>AList.update\<close> overwrites the value of a present key in
    place and appends an absent key at the end.
  \<^item> Every exception the three functions can raise is a value of \<open>py_error\<close>; a
    \<^verbatim>\<open>KeyError\<close> carries the missing key, which is an \<^verbatim>\<open>int\<close> for the outer
    dict of orders and a tuple for a frequency table.
  \<^item> The counts \<^verbatim>\<open>n_grams\<close>, \<^verbatim>\<open>limit\<close> and \<^verbatim>\<open>min_length\<close> are
    natural numbers. Python also accepts negative integers there; each of them is only
    used as a loop bound or in a comparison with a length, where a negative value
    behaves as \<open>0\<close> does.
\<close>

datatype py_error =
    KeyError_int nat
  | KeyError_tuple "string list"
  | IndexError
  | ValueError

type_synonym token = string
type_synonym ngram = "string list"
type_synonym table = "(ngram \<times> token list) list"
type_synonym model = "(nat \<times> table) list"

subsection \<open>Python primitives used by the cells\<close>

text \<open>\<^verbatim>\<open>xs[i]\<close> for \<open>i \<ge> 0\<close>: raises \<^verbatim>\<open>IndexError\<close> out of range.\<close>

definition py_index :: "'a list \<Rightarrow> nat \<Rightarrow> py_error + 'a" where
  "py_index xs i = (if i < length xs then Inr (xs ! i) else Inl IndexError)"

text \<open>\<^verbatim>\<open>xs[i:k]\<close> for \<open>0 \<le> i \<le> k\<close>: a slice is clamped to the list, it never raises.\<close>

definition slice :: "'a list \<Rightarrow> nat \<Rightarrow> nat \<Rightarrow> 'a list" where
  "slice xs i k = take (k - i) (drop i xs)"

subsection \<open>\<^verbatim>\<open>collect_dict\<close>\<close>

text \<open>
  \<^verbatim>\<open>
  def collect_dict(corpus, n_grams):
      text_dict = {}
      words = nltk.word_tokenize(corpus)
      for j in range(1, n_grams + 1):
          sub_text_dict = {}
          for i in range(len(words)-n_grams):
              key = tuple(words[i:i+j])
              if key in sub_text_dict:
                  sub_text_dict[key].append(words[i+n_grams])
              else:
                  sub_text_dict[key] = [words[i+n_grams]]
          text_dict[j] = sub_text_dict
      return text_dict
  \<close>
  The tokenizer \<^verbatim>\<open>nltk.word_tokenize\<close> is an external library; the model starts from
  its result \<open>words\<close>. \<open>dict_append\<close> is the body of the \<^verbatim>\<open>if key in sub_text_dict\<close>
  statement, \<open>inner_loop\<close> the loop over \<open>i\<close> and \<open>outer_loop\<close> the loop over \<open>j\<close>.
  \<^verbatim>\<open>range(len(words)-n_grams)\<close> is empty when the difference is not positive, as
  \<open>[0..<length words - n_grams]\<close> is with the truncating subtraction of \<open>nat\<close>.
\<close>

definition dict_append :: "table \<Rightarrow> ngram \<Rightarrow> token \<Rightarrow> table" where
  "dict_append d key w =
     (case map_of d key of
        Some l \<Rightarrow> AList.update key (l @ [w]) d
      | None \<Rightarrow> AList.update key [w] d)"

fun inner_loop :: "token list \<Rightarrow> nat \<Rightarrow> nat \<Rightarrow> nat list \<Rightarrow> table \<Rightarrow> py_error + table" where
  "inner_loop words n_grams j [] sub_text_dict = Inr sub_text_dict"
| "inner_loop words n_grams j (i # is) sub_text_dict =
     (case py_index words (i + n_grams) of
        Inl e \<Rightarrow> Inl e
      | Inr w \<Rightarrow>
          inner_loop words n_grams j is
            (dict_append sub_text_dict (slice words i (i + j)) w))"

fun outer_loop :: "token list \<Rightarrow> nat \<Rightarrow> nat list \<Rightarrow> model \<Rightarrow> py_error + model" where
  "outer_loop words n_grams [] text_dict = Inr text_dict"
| "outer_loop words n_grams (j # js) text_dict =
     (case inner_loop words n_grams j [0..<length words - n_grams] [] of
        Inl e \<Rightarrow> Inl e
      | Inr sub_text_dict \<Rightarrow>
          outer_loop words n_grams js (AList.update j sub_text_dict text_dict))"

definition collect_dict :: "token list \<Rightarrow> nat \<Rightarrow> py_error + model" where
  "collect_dict words n_grams = outer_loop words n_grams [1..<n_grams + 1] []"

text \<open>
  The successors recorded for context \<open>c\<close> at order \<open>j\<close> by the window starts \<open>is\<close>:
  the tokens \<open>words[i + n_grams]\<close> for the \<open>i\<close> in \<open>is\<close> with \<open>words[i:i+j] = c\<close>,
  in the order of \<open>is\<close>.
\<close>

definition followers :: "token list \<Rightarrow> nat \<Rightarrow> nat \<Rightarrow> nat list \<Rightarrow> ngram \<Rightarrow> token list" where
  "followers words n_grams j is c =
     map (\<lambda>i. words ! (i + n_grams)) (filter (\<lambda>i. slice words i (i + j) = c) is)"

subsection \<open>\<^verbatim>\<open>random.choice\<close>\<close>

text \<open>
  The notebook draws from Python's global generator. \<^verbatim>\<open>random.choice(seq)\<close> raises
  \<^verbatim>\<open>IndexError\<close> on an empty sequence and otherwise returns
  \<^verbatim>\<open>seq[_randbelow(len(seq))]\<close>. The generator is a parameter here: a state \<open>g\<close> and
  a function \<open>randbelow\<close> that, from a state and a bound \<open>n > 0\<close>, gives a number and the
  next state. The number is reduced modulo \<open>n\<close>, so that every function is a source
  that keeps the contract \<open>0 \<le> _randbelow(n) < n\<close>, and every sequence of draws is the
  behaviour of some source.
\<close>

type_synonym 'g randbelow = "'g \<Rightarrow> nat \<Rightarrow> nat \<times> 'g"

definition choice :: "'g randbelow \<Rightarrow> 'g \<Rightarrow> 'a list \<Rightarrow> py_error + ('a \<times> 'g)" where
  "choice randbelow g xs =
     (if xs = [] then Inl IndexError
      else (case randbelow g (length xs) of
              (i, g') \<Rightarrow> Inr (xs ! (i mod length xs), g')))"

text \<open>The source of the concrete scenario: it always picks the last candidate.\<close>

definition pick_last :: "unit randbelow" where
  "pick_last g n = (n - 1, g)"

subsection \<open>\<^verbatim>\<open>get_next_word\<close>\<close>

text \<open>
  \<^verbatim>\<open>
  def get_next_word(key_id, min_length):
      for i in range(len(key_id)):
          if key_id in word_pairs[len(key_id)]:
              if len(word_pairs[len(key_id)][key_id]) >= min_length:
                  return random.choice(word_pairs[len(key_id)][key_id])
          else:
              pass
          if len(key_id) > 1:
              key_id = key_id[1:]
      return random.choice(word_pairs[len(key_id)][key_id])
  \<close>
  \<^verbatim>\<open>word_pairs\<close> is a global of the notebook, a parameter here. The range of the
  \<^verbatim>\<open>for\<close> loop is computed once, from the key the function is called with:
  \<open>backoff_loop\<close> takes the number of iterations that remain. The assignment
  \<^verbatim>\<open>key_id = key_id[1:]\<close> rebinds the variable that the statement after the loop reads.
\<close>

fun backoff_loop ::
  "'g randbelow \<Rightarrow> 'g \<Rightarrow> model \<Rightarrow> nat \<Rightarrow> ngram \<Rightarrow> nat \<Rightarrow> py_error + (token \<times> 'g)" where
  "backoff_loop randbelow g word_pairs 0 key_id min_length =
     (case map_of word_pairs (length key_id) of
        None \<Rightarrow> Inl (KeyError_int (length key_id))
      | Some tbl \<Rightarrow>
          (case map_of tbl key_id of
             None \<Rightarrow> Inl (KeyError_tuple key_id)
           | Some l \<Rightarrow> choice randbelow g l))"
| "backoff_loop randbelow g word_pairs (Suc r) key_id min_length =
     (case map_of word_pairs (length key_id) of
        None \<Rightarrow> Inl (KeyError_int (length key_id))
      | Some tbl \<Rightarrow>
          (case map_of tbl key_id of
             Some l \<Rightarrow>
               if min_length \<le> length l then choice randbelow g l
               else backoff_loop randbelow g word_pairs r
                      (if 1 < length key_id then drop 1 key_id else key_id) min_length
           | None \<Rightarrow>
               backoff_loop randbelow g word_pairs r
                 (if 1 < length key_id then drop 1 key_id else key_id) min_length))"

definition get_next_word ::
  "'g randbelow \<Rightarrow> 'g \<Rightarrow> model \<Rightarrow> ngram \<Rightarrow> nat \<Rightarrow> py_error + (token \<times> 'g)" where
  "get_next_word randbelow g word_pairs key_id min_length =
     backoff_loop randbelow g word_pairs (length key_id) key_id min_length"

subsection \<open>Strings: \<^verbatim>\<open>' '.join\<close>, \<^verbatim>\<open>split(' ')\<close>, \<^verbatim>\<open>replace\<close>\<close>

fun join_sp :: "string list \<Rightarrow> string" where
  "join_sp [] = []"
| "join_sp [x] = x"
| "join_sp (x # y # ys) = x @ '' '' @ join_sp (y # ys)"

text \<open>
  \<^verbatim>\<open>s.split(' ')\<close> cuts at every single space: it returns one field more than \<open>s\<close> has
  spaces, empty fields included (\<^verbatim>\<open>''.split(' ') == ['']\<close>).
\<close>

fun split_sp :: "string \<Rightarrow> string list" where
  "split_sp [] = [[]]"
| "split_sp (c # cs) =
     (if c = CHR '' '' then [] # split_sp cs
      else (case split_sp cs of [] \<Rightarrow> [[c]] | f # fs \<Rightarrow> (c # f) # fs))"

text \<open>
  \<^verbatim>\<open>s.replace(old, new)\<close> replaces the occurrences of \<open>old\<close> found by a scan from the
  left that resumes after each occurrence; with an empty \<open>old\<close> it puts \<open>new\<close> before every
  character and at the end.
\<close>

function py_replace :: "string \<Rightarrow> string \<Rightarrow> string \<Rightarrow> string" where
  "py_replace old new s =
     (if old = [] then new @ concat (map (\<lambda>c. c # new) s)
      else if s = [] then []
      else if take (length old) s = old
        then new @ py_replace old new (drop (length old) s)
      else hd s # py_replace old new (tl s))"
  by pat_completeness auto
termination
  by (relation "measure (\<lambda>(old, new, s). length s)") auto

declare py_replace.simps [simp del]

subsection \<open>\<^verbatim>\<open>generate_text\<close>\<close>

text \<open>
  \<^verbatim>\<open>
  def generate_text(words, limit = 100, min_length = 5):
      capitalized_keys = [i for i in words[max(words.keys())].keys()
                          if len(i[0]) > 0 and i[0][0].isupper()]
      first_key = random.choice(capitalized_keys)
      markov_text = ' '.join(first_key)
      while len(markov_text.split(' ')) < limit:
          next_word = get_next_word(first_key, min_length)
          first_key = tuple(first_key[1:]) + tuple([next_word])
          markov_text += ' ' + next_word
      for i in ['.', '?', '!', ',']:
          markov_text = markov_text.replace(' .', '.').replace(' ,', ',') \
              .replace(' !', '!').replace(' ?', '?').replace(' ;', ';')
      return markov_text
  \<close>
  The function has three parts, modelled one by one: the choice of the seed
  (\<open>select_seed\<close>, the first two statements), the \<^verbatim>\<open>while\<close> loop (\<open>markov_loop\<close>) and
  the rendering (\<open>render\<close>, the \<^verbatim>\<open>for\<close> loop). \<^verbatim>\<open>get_next_word\<close> reads the global
  \<^verbatim>\<open>word_pairs\<close>, not the argument \<^verbatim>\<open>words\<close>: both are parameters, and the notebook
  calls \<^verbatim>\<open>generate_text(word_pairs, 200, 6)\<close>. The result is paired with the state of
  the random source. \<^verbatim>\<open>str.isupper\<close> on one character is the parameter \<open>isupper\<close>;
  \<open>ascii_isupper\<close> is its restriction to ASCII.
\<close>

definition ascii_isupper :: "char \<Rightarrow> bool" where
  "ascii_isupper c = (c \<in> set ''ABCDEFGHIJKLMNOPQRSTUVWXYZ'')"

text \<open>\<^verbatim>\<open>max(words.keys())\<close>: raises \<^verbatim>\<open>ValueError\<close> on an empty dict.\<close>

fun py_max :: "nat list \<Rightarrow> py_error + nat" where
  "py_max [] = Inl ValueError"
| "py_max (x # xs) = Inr (fold max xs x)"

text \<open>The list comprehension: \<^verbatim>\<open>i[0]\<close> raises \<^verbatim>\<open>IndexError\<close> on an empty tuple.\<close>

fun capitalized_keys :: "(char \<Rightarrow> bool) \<Rightarrow> ngram list \<Rightarrow> py_error + ngram list" where
  "capitalized_keys isupper [] = Inr []"
| "capitalized_keys isupper (i # is) =
     (case py_index i 0 of
        Inl e \<Rightarrow> Inl e
      | Inr t \<Rightarrow>
          (case capitalized_keys isupper is of
             Inl e \<Rightarrow> Inl e
           | Inr ks \<Rightarrow> Inr (if 0 < length t \<and> isupper (t ! 0) then i # ks else ks)))"

definition select_seed ::
  "(char \<Rightarrow> bool) \<Rightarrow> 'g randbelow \<Rightarrow> 'g \<Rightarrow> model \<Rightarrow> py_error + (ngram \<times> 'g)" where
  "select_seed isupper randbelow g words =
     (case py_max (map fst words) of
        Inl e \<Rightarrow> Inl e
      | Inr n_max \<Rightarrow>
          (case map_of words n_max of
             None \<Rightarrow> Inl (KeyError_int n_max)
           | Some tbl \<Rightarrow>
               (case capitalized_keys isupper (map fst tbl) of
                  Inl e \<Rightarrow> Inl e
                | Inr caps \<Rightarrow> choice randbelow g caps)))"

function markov_loop ::
  "'g randbelow \<Rightarrow> model \<Rightarrow> nat \<Rightarrow> nat \<Rightarrow> 'g \<Rightarrow> ngram \<Rightarrow> string \<Rightarrow> py_error + (string \<times> 'g)"
  where
  "markov_loop randbelow word_pairs limit min_length g first_key markov_text =
     (if length (split_sp markov_text) < limit then
        (case get_next_word randbelow g word_pairs first_key min_length of
           Inl e \<Rightarrow> Inl e
         | Inr (next_word, g') \<Rightarrow>
             markov_loop randbelow word_pairs limit min_length g'
               (drop 1 first_key @ [next_word]) (markov_text @ '' '' @ next_word))
      else Inr (markov_text, g))"
  by pat_completeness auto
termination
proof (relation "measure (\<lambda>(randbelow, word_pairs, limit, min_length, g, first_key, markov_text).
                            limit - length (split_sp markov_text))")
  show "wf (measure (\<lambda>(randbelow :: 'g randbelow, word_pairs :: model, limit :: nat,
                       min_length :: nat, g :: 'g, first_key :: ngram, markov_text :: string).
                       limit - length (split_sp markov_text)))"
    by simp
next
  fix randbelow :: "'g randbelow" and word_pairs :: model and limit min_length :: nat
    and g g' :: 'g and first_key :: ngram and markov_text next_word :: string and x2 x
  assume "length (split_sp markov_text) < limit"
  moreover have fields: "split_sp t \<noteq> []" for t
    by (induction t) (auto split: list.splits)
  moreover have "length (split_sp t) < length (split_sp (t @ '' '' @ w))" for t w
    using fields [of w] by (induction t) (auto simp: fields split: list.splits)
  ultimately show "((randbelow, word_pairs, limit, min_length, g',
             drop 1 first_key @ [next_word], markov_text @ '' '' @ next_word),
            randbelow, word_pairs, limit, min_length, g, first_key, markov_text)
           \<in> measure (\<lambda>(randbelow, word_pairs, limit, min_length, g, first_key, markov_text).
                            limit - length (split_sp markov_text))"
    by (simp add: diff_less_mono2)
qed

declare markov_loop.simps [simp del]

definition replace_chain :: "string \<Rightarrow> string" where
  "replace_chain s =
     py_replace '' ;'' '';''
       (py_replace '' ?'' ''?''
         (py_replace '' !'' ''!''
           (py_replace '' ,'' '',''
             (py_replace '' .'' ''.'' s))))"

fun render_loop :: "string list \<Rightarrow> string \<Rightarrow> string" where
  "render_loop [] markov_text = markov_text"
| "render_loop (i # is) markov_text = render_loop is (replace_chain markov_text)"

definition render :: "string \<Rightarrow> string" where
  "render markov_text = render_loop [''.'', ''?'', ''!'', '',''] markov_text"

text \<open>\<open>markov_text\<close> when the \<^verbatim>\<open>while\<close> loop ends, before the rendering.\<close>

definition generate_unrendered ::
  "(char \<Rightarrow> bool) \<Rightarrow> 'g randbelow \<Rightarrow> 'g \<Rightarrow> model \<Rightarrow> model \<Rightarrow> nat \<Rightarrow> nat
     \<Rightarrow> py_error + (string \<times> 'g)" where
  "generate_unrendered isupper randbelow g word_pairs words limit min_length =
     (case select_seed isupper randbelow g words of
        Inl e \<Rightarrow> Inl e
      | Inr (first_key, g1) \<Rightarrow>
          markov_loop randbelow word_pairs limit min_length g1 first_key (join_sp first_key))"

definition generate_text ::
  "(char \<Rightarrow> bool) \<Rightarrow> 'g randbelow \<Rightarrow> 'g \<Rightarrow> model \<Rightarrow> model \<Rightarrow> nat \<Rightarrow> nat
     \<Rightarrow> py_error + (string \<times> 'g)" where
  "generate_text isupper randbelow g word_pairs words limit min_length =
     (case generate_unrendered isupper randbelow g word_pairs words limit min_length of
        Inl e \<Rightarrow> Inl e
      | Inr (markov_text, g') \<Rightarrow> Inr (render markov_text, g'))"

subsection \<open>Predicates on strings used in the statements\<close>

text \<open>\<open>adjacent a b s\<close>: somewhere in \<open>s\<close> the character \<open>a\<close> is directly followed by \<open>b\<close>.\<close>

fun adjacent :: "char \<Rightarrow> char \<Rightarrow> string \<Rightarrow> bool" where
  "adjacent a b (x # y # s) = ((x = a \<and> y = b) \<or> adjacent a b (y # s))"
| "adjacent a b s = False"

text \<open>
  \<open>marks_attached s\<close>: \<open>s\<close> has no two spaces in a row and no space directly before one
  of the marks \<^verbatim>\<open>. , ! ? ;\<close>.
\<close>

definition marks_attached :: "string \<Rightarrow> bool" where
  "marks_attached s \<longleftrightarrow>
     \<not> adjacent CHR '' '' CHR '' '' s \<and> \<not> adjacent CHR '' '' CHR ''.'' s \<and>
     \<not> adjacent CHR '' '' CHR '','' s \<and> \<not> adjacent CHR '' '' CHR ''!'' s \<and>
     \<not> adjacent CHR '' '' CHR ''?'' s \<and> \<not> adjacent CHR '' '' CHR '';'' s"

subsection \<open>Predicates and models used in the statements\<close>

text \<open>
  \<open>capitalized isupper c\<close>: the context \<open>c\<close> has a first token, and this token starts
  with an uppercase letter.
\<close>

definition capitalized :: "(char \<Rightarrow> bool) \<Rightarrow> ngram \<Rightarrow> bool" where
  "capitalized isupper c \<longleftrightarrow> c \<noteq> [] \<and> c ! 0 \<noteq> [] \<and> isupper (c ! 0 ! 0)"

text \<open>
  \<open>space_free m\<close>: no token of a key or of a following-list of \<open>m\<close> contains a space
  (the tokenizer splits at whitespace).
\<close>

definition space_free :: "model \<Rightarrow> bool" where
  "space_free m \<longleftrightarrow>
     (\<forall>(j, tbl) \<in> set m. \<forall>(c, l) \<in> set tbl.
        (\<forall>t \<in> set c. CHR '' '' \<notin> set t) \<and> (\<forall>w \<in> set l. CHR '' '' \<notin> set w))"

text \<open>
  The models that \<^verbatim>\<open>collect_dict\<close> builds with \<open>N = 2\<close> from the token sequences
  \<open>A b c . A b d .\<close> (\<open>scenario_model\<close>), \<open>a b c\<close> (\<open>lowercase_model\<close>),
  \<open>A b c\<close> (\<open>short_model\<close>) and \<open>A b b x y\<close> (\<open>backoff_model\<close>).
\<close>

definition scenario_model :: model where
  "scenario_model =
     [(1, [([''A''], [''c'', ''d'']), ([''b''], [''.'', ''.'']), ([''c''], [''A'']),
           ([''.''], [''b''])]),
      (2, [([''A'', ''b''], [''c'', ''d'']), ([''b'', ''c''], [''.'']), ([''c'', ''.''], [''A'']),
           ([''.'', ''A''], [''b'']), ([''b'', ''d''], [''.''])])]"

definition lowercase_model :: model where
  "lowercase_model = [(1, [([''a''], [''c''])]), (2, [([''a'', ''b''], [''c''])])]"

text \<open>
  A dict whose largest order is not its last key: the table of order 2 stands first and
  holds the only capitalized key.
\<close>

definition reversed_model :: model where
  "reversed_model = [(2, [([''A'', ''b''], [''c''])]), (1, [([''a''], [''c''])])]"

definition short_model :: model where
  "short_model = [(1, [([''A''], [''c''])]), (2, [([''A'', ''b''], [''c''])])]"

definition backoff_model :: model where
  "backoff_model =
     [(1, [([''A''], [''b'']), ([''b''], [''x'', ''y''])]),
      (2, [([''A'', ''b''], [''b'']), ([''b'', ''b''], [''x'']), ([''b'', ''x''], [''y''])])]"

section \<open>The builder\<close>

lemma map_of_dict_append:
  "map_of (dict_append d key w) c =
     (if c = key then Some ((case map_of d key of None \<Rightarrow> [] | Some l \<Rightarrow> l) @ [w])
      else map_of d c)"
  by (simp add: dict_append_def update_conv' split: option.split)

lemma inner_loop_lookup:
  assumes "\<forall>i \<in> set is. i + n_grams < length words"
  shows "\<exists>d'. inner_loop words n_grams j is d = Inr d' \<and>
           (\<forall>c. map_of d' c =
              (if followers words n_grams j is c = [] then map_of d c
               else Some ((case map_of d c of None \<Rightarrow> [] | Some l \<Rightarrow> l)
                          @ followers words n_grams j is c)))"
  using assms
proof (induction "is" arbitrary: d)
  case Nil
  then show ?case by (simp add: followers_def)
next
  case (Cons i "is")
  let ?d1 = "dict_append d (slice words i (i + j)) (words ! (i + n_grams))"
  from Cons.prems have inb: "i + n_grams < length words"
    and rest: "\<forall>i \<in> set is. i + n_grams < length words" by simp_all
  from Cons.IH [OF rest, of ?d1] obtain d' where
    run: "inner_loop words n_grams j is ?d1 = Inr d'" and
    look: "\<And>c. map_of d' c =
              (if followers words n_grams j is c = [] then map_of ?d1 c
               else Some ((case map_of ?d1 c of None \<Rightarrow> [] | Some l \<Rightarrow> l)
                          @ followers words n_grams j is c))"
    by blast
  have "inner_loop words n_grams j (i # is) d = Inr d'"
    using inb run by (simp add: py_index_def)
  moreover have "map_of d' c =
              (if followers words n_grams j (i # is) c = [] then map_of d c
               else Some ((case map_of d c of None \<Rightarrow> [] | Some l \<Rightarrow> l)
                          @ followers words n_grams j (i # is) c))" for c
    by (simp add: look [of c] map_of_dict_append followers_def split: option.split)
  ultimately show ?case by blast
qed

lemma inner_loop_distinct:
  "inner_loop words n_grams j is d = Inr d' \<Longrightarrow> distinct (map fst d) \<Longrightarrow> distinct (map fst d')"
proof (induction "is" arbitrary: d)
  case Nil
  then show ?case by simp
next
  case (Cons i "is")
  then show ?case
    by (auto simp: dict_append_def distinct_update split: sum.splits option.splits)
qed

lemma window_starts_in_range:
  "\<forall>i \<in> set [0..<length words - n_grams]. i + n_grams < length (words :: token list)"
  by auto

lemma inner_loop_table:
  "\<exists>tbl. inner_loop words n_grams j [0..<length words - n_grams] [] = Inr tbl \<and>
         distinct (map fst tbl) \<and>
         (\<forall>c. map_of tbl c =
            (if followers words n_grams j [0..<length words - n_grams] c = [] then None
             else Some (followers words n_grams j [0..<length words - n_grams] c)))"
proof -
  from inner_loop_lookup [OF window_starts_in_range, of words n_grams j "[]"]
  obtain tbl where run: "inner_loop words n_grams j [0..<length words - n_grams] [] = Inr tbl"
    and look: "\<forall>c. map_of tbl c =
            (if followers words n_grams j [0..<length words - n_grams] c = [] then map_of [] c
             else Some ((case map_of [] c of None \<Rightarrow> [] | Some l \<Rightarrow> l)
                        @ followers words n_grams j [0..<length words - n_grams] c))"
    by blast
  from inner_loop_distinct [OF run] have "distinct (map fst tbl)" by simp
  with run look show ?thesis by simp
qed

lemma outer_loop_lookup:
  "\<exists>m. outer_loop words n_grams js td = Inr m \<and>
       (distinct (map fst td) \<longrightarrow> distinct (map fst m)) \<and>
       (\<forall>j. map_of m j =
          (if j \<in> set js
           then (case inner_loop words n_grams j [0..<length words - n_grams] [] of
                   Inr tbl \<Rightarrow> Some tbl | Inl e \<Rightarrow> None)
           else map_of td j))"
proof (induction js arbitrary: td)
  case Nil
  then show ?case by simp
next
  case (Cons j js)
  from inner_loop_table [of words n_grams j] obtain tbl where
    run: "inner_loop words n_grams j [0..<length words - n_grams] [] = Inr tbl" by blast
  from Cons.IH [of "AList.update j tbl td"] obtain m where
    out: "outer_loop words n_grams js (AList.update j tbl td) = Inr m" and
    dist: "distinct (map fst (AList.update j tbl td)) \<longrightarrow> distinct (map fst m)" and
    look: "\<And>k. map_of m k =
          (if k \<in> set js
           then (case inner_loop words n_grams k [0..<length words - n_grams] [] of
                   Inr tbl \<Rightarrow> Some tbl | Inl e \<Rightarrow> None)
           else map_of (AList.update j tbl td) k)"
    by blast
  have "outer_loop words n_grams (j # js) td = Inr m"
    using run out by simp
  moreover have "distinct (map fst td) \<longrightarrow> distinct (map fst m)"
    using dist by (simp add: distinct_update)
  moreover have "map_of m k =
          (if k \<in> set (j # js)
           then (case inner_loop words n_grams k [0..<length words - n_grams] [] of
                   Inr tbl \<Rightarrow> Some tbl | Inl e \<Rightarrow> None)
           else map_of td k)" for k
    using run by (simp add: look [of k] update_conv')
  ultimately show ?case by blast
qed

lemma collect_dict_lookup:
  "\<exists>m. collect_dict words n_grams = Inr m \<and> distinct (map fst m) \<and>
       (\<forall>j. map_of m j =
          (if 1 \<le> j \<and> j \<le> n_grams
           then (case inner_loop words n_grams j [0..<length words - n_grams] [] of
                   Inr tbl \<Rightarrow> Some tbl | Inl e \<Rightarrow> None)
           else None))"
proof -
  from outer_loop_lookup [of words n_grams "[1..<n_grams + 1]" "[]"]
  obtain m where "outer_loop words n_grams [1..<n_grams + 1] [] = Inr m"
    and "distinct (map fst m)"
    and "\<And>j. map_of m j =
          (if j \<in> set [1..<n_grams + 1]
           then (case inner_loop words n_grams j [0..<length words - n_grams] [] of
                   Inr tbl \<Rightarrow> Some tbl | Inl e \<Rightarrow> None)
           else map_of [] j)"
    by auto
  then show ?thesis
    by (auto simp: collect_dict_def)
qed

lemma collect_dict_table:
  assumes "collect_dict words n_grams = Inr m" and "map_of m j = Some tbl"
  shows "1 \<le> j \<and> j \<le> n_grams \<and> distinct (map fst tbl) \<and>
         (\<forall>c. map_of tbl c =
            (if followers words n_grams j [0..<length words - n_grams] c = [] then None
             else Some (followers words n_grams j [0..<length words - n_grams] c)))"
proof -
  from collect_dict_lookup [of words n_grams] assms(1)
  have look: "map_of m j =
          (if 1 \<le> j \<and> j \<le> n_grams
           then (case inner_loop words n_grams j [0..<length words - n_grams] [] of
                   Inr tbl \<Rightarrow> Some tbl | Inl e \<Rightarrow> None)
           else None)"
    by auto
  with assms(2) have range: "1 \<le> j \<and> j \<le> n_grams"
    by (auto split: if_splits)
  from inner_loop_table [of words n_grams j] obtain t where
    run: "inner_loop words n_grams j [0..<length words - n_grams] [] = Inr t"
    and t: "distinct (map fst t)"
      "\<forall>c. map_of t c =
            (if followers words n_grams j [0..<length words - n_grams] c = [] then None
             else Some (followers words n_grams j [0..<length words - n_grams] c))"
    by blast
  from look range run assms(2) have "tbl = t" by simp
  with range t show ?thesis by simp
qed

lemma followers_empty_iff:
  "followers words n_grams j [0..<k] c = [] \<longleftrightarrow> \<not> (\<exists>i<k. slice words i (i + j) = c)"
  by (auto simp: followers_def filter_empty_conv)

lemma collect_dict_order_table:
  assumes "1 \<le> j" and "j \<le> n_grams"
  shows "\<exists>m tbl. collect_dict words n_grams = Inr m \<and> map_of m j = Some tbl \<and>
           (\<forall>c. map_of tbl c =
              (if followers words n_grams j [0..<length words - n_grams] c = [] then None
               else Some (followers words n_grams j [0..<length words - n_grams] c)))"
proof -
  from collect_dict_lookup [of words n_grams] obtain m where
    m: "collect_dict words n_grams = Inr m" and
    look: "\<And>j. map_of m j =
          (if 1 \<le> j \<and> j \<le> n_grams
           then (case inner_loop words n_grams j [0..<length words - n_grams] [] of
                   Inr tbl \<Rightarrow> Some tbl | Inl e \<Rightarrow> None)
           else None)"
    by blast
  from inner_loop_table [of words n_grams j] obtain tbl where
    run: "inner_loop words n_grams j [0..<length words - n_grams] [] = Inr tbl" by blast
  from look [of j] assms run have mj: "map_of m j = Some tbl" by simp
  from collect_dict_table [OF m mj] m mj show ?thesis by blast
qed

lemma table_keys:
  assumes "\<And>c. map_of tbl c =
              (if followers words n_grams j [0..<k] c = [] then None
               else Some (followers words n_grams j [0..<k] c))"
  shows "c \<in> fst ` set tbl \<longleftrightarrow> (\<exists>i<k. slice words i (i + j) = c)"
proof -
  have "c \<in> fst ` set tbl \<longleftrightarrow> map_of tbl c \<noteq> None"
    by (simp add: map_of_eq_None_iff)
  also have "\<dots> \<longleftrightarrow> followers words n_grams j [0..<k] c \<noteq> []"
    by (simp add: assms)
  also have "\<dots> \<longleftrightarrow> (\<exists>i<k. slice words i (i + j) = c)"
    by (simp add: followers_empty_iff)
  finally show ?thesis .
qed

text \<open>
  C2. For every order \<open>j\<close> in \<open>1..N\<close>, \<^verbatim>\<open>collect_dict\<close> returns a model whose table \<open>j\<close>
  maps a context \<open>c\<close> to exactly the tokens \<open>words[i+N]\<close> for the window starts
  \<open>i = 0, ..., len(words)-N-1\<close> with \<open>words[i:i+j] = c\<close>, in increasing order of \<open>i\<close>, and
  \<open>c\<close> is a key of table \<open>j\<close> if and only if there is such an \<open>i\<close>. (The statement
  needs neither \<open>len(words) > N\<close> nor more than \<open>1 \<le> j \<le> N\<close>.)
\<close>

theorem collect_dict_followers:
  assumes "1 \<le> j" and "j \<le> n_grams"
  shows "\<exists>m tbl. collect_dict words n_grams = Inr m \<and> map_of m j = Some tbl \<and>
           (\<forall>c. (c \<in> fst ` set tbl \<longleftrightarrow>
                   (\<exists>i<length words - n_grams. slice words i (i + j) = c)) \<and>
                (c \<in> fst ` set tbl \<longrightarrow>
                   map_of tbl c =
                     Some (map (\<lambda>i. words ! (i + n_grams))
                            (filter (\<lambda>i. slice words i (i + j) = c)
                              [0..<length words - n_grams]))))"
proof -
  from collect_dict_order_table [OF assms, of words] obtain m tbl where
    m: "collect_dict words n_grams = Inr m" and mj: "map_of m j = Some tbl" and
    tbl: "\<And>c. map_of tbl c =
            (if followers words n_grams j [0..<length words - n_grams] c = [] then None
             else Some (followers words n_grams j [0..<length words - n_grams] c))"
    by blast
  note keys = table_keys [of tbl words n_grams j "length words - n_grams", OF tbl]
  have vals: "c \<in> fst ` set tbl \<longrightarrow>
                   map_of tbl c =
                     Some (map (\<lambda>i. words ! (i + n_grams))
                            (filter (\<lambda>i. slice words i (i + j) = c)
                              [0..<length words - n_grams]))" for c
    using keys [of c] tbl [of c] followers_empty_iff [of words n_grams j "length words - n_grams" c]
    by (simp add: followers_def)
  from m mj keys vals show ?thesis by blast
qed

theorem collect_dict_followers_witness:
  "(1::nat) \<le> 1 \<and> (1::nat) \<le> 1 \<and>
   (\<exists>m tbl. collect_dict [''a'', ''b'', ''a'', ''c''] 1 = Inr m \<and> map_of m 1 = Some tbl \<and>
      [''a''] \<in> fst ` set tbl \<and> map_of tbl [''a''] = Some [''b'', ''c''] \<and>
      [''c''] \<notin> fst ` set tbl)"
proof -
  let ?ws = "[''a'', ''b'', ''a'', ''c'']"
  from collect_dict_followers [of 1 1 ?ws] obtain m tbl where
    m: "collect_dict ?ws 1 = Inr m" "map_of m 1 = Some tbl" and
    k: "\<And>c. c \<in> fst ` set tbl \<longleftrightarrow> (\<exists>i<length ?ws - 1. slice ?ws i (i + 1) = c)" and
    v: "\<And>c. c \<in> fst ` set tbl \<longrightarrow> map_of tbl c =
                     Some (map (\<lambda>i. ?ws ! (i + 1))
                            (filter (\<lambda>i. slice ?ws i (i + 1) = c) [0..<length ?ws - 1]))"
    by auto
  have up: "[0..<3] = [0, 1, 2::nat]" by (simp add: upt_rec)
  have a: "[''a''] \<in> fst ` set tbl"
    unfolding k by (rule exI [of _ 0]) (simp add: slice_def)
  have c: "[''c''] \<notin> fst ` set tbl"
  proof
    assume "[''c''] \<in> fst ` set tbl"
    then have "\<exists>i<length ?ws - 1. slice ?ws i (i + 1) = [''c'']"
      by (simp only: k)
    then obtain i where "i < length ?ws - 1" and s: "slice ?ws i (i + 1) = [''c'']"
      by blast
    then have "i = 0 \<or> i = 1 \<or> i = 2" by simp arith
    with s show False by (auto simp: slice_def)
  qed
  from v [of "[''a'']"] a have "map_of tbl [''a''] = Some [''b'', ''c'']"
    by (simp add: up slice_def)
  with m a c show ?thesis by auto
qed

subsection \<open>A corpus of at most \<open>N\<close> tokens\<close>

lemma update_absent: "k \<notin> fst ` set al \<Longrightarrow> AList.update k v al = al @ [(k, v)]"
  by (induction al) auto

lemma outer_loop_short:
  assumes "length words \<le> n_grams"
  shows "distinct js \<Longrightarrow> set js \<inter> fst ` set td = {} \<Longrightarrow>
         outer_loop words n_grams js td = Inr (td @ map (\<lambda>j. (j, [])) js)"
proof (induction js arbitrary: td)
  case Nil
  then show ?case by simp
next
  case (Cons j js)
  from assms have empty: "[0..<length words - n_grams] = []" by simp
  from Cons.prems have fresh: "j \<notin> fst ` set td" by auto
  have "set js \<inter> fst ` set (td @ [(j, [])]) = {}"
    using Cons.prems by auto
  with Cons.IH [of "td @ [(j, [])]"] Cons.prems
  have "outer_loop words n_grams js (td @ [(j, [])]) = Inr ((td @ [(j, [])]) @ map (\<lambda>j. (j, [])) js)"
    by simp
  then show ?case
    by (simp add: empty update_absent [OF fresh])
qed

text \<open>
  C4, as the code has it. \<^verbatim>\<open>collect_dict\<close> has no length check and raises nothing:
  when \<open>len(words) \<le> N\<close> the inner loop runs over an empty range, and the function
  returns the dict with the keys \<open>1, ..., N\<close> in this order, each bound to an empty table.
\<close>

theorem collect_dict_short_corpus:
  assumes "length words \<le> n_grams"
  shows "collect_dict words n_grams = Inr (map (\<lambda>j. (j, [])) [1..<n_grams + 1])"
  using outer_loop_short [OF assms, of "[1..<n_grams + 1]" "[]"]
  by (simp add: collect_dict_def)

theorem collect_dict_short_corpus_witness:
  "length [''a'', ''b''] \<le> (2::nat) \<and> collect_dict [''a'', ''b''] 2 = Inr [(1, []), (2, [])]"
proof -
  have "[1..<2 + 1] = [1::nat, 2]" by (simp add: upt_rec)
  then show ?thesis using collect_dict_short_corpus [of "[''a'', ''b'']" 2] by simp
qed

text \<open>
  C4, as the claim states it, fails: for the one-token corpus \<open>["a"]\<close> and \<open>N = 1\<close> the
  builder returns a model (one empty table), not an error.
\<close>

theorem collect_dict_returns_on_short_corpus:
  "collect_dict [''a''] 1 = Inr [(1, [])]"
  by (simp add: collect_dict_def)

subsection \<open>Table completeness\<close>

text \<open>
  C6. In the model returned by \<^verbatim>\<open>collect_dict\<close>, every entry \<open>(c, l)\<close> of every table
  \<open>j\<close> (and the orders present are within \<open>1..N\<close>) is what a lookup of \<open>c\<close> returns,
  and its following-list \<open>l\<close> is not empty.
\<close>

theorem collect_dict_nonempty_lists:
  assumes "collect_dict words n_grams = Inr m" and "(j, tbl) \<in> set m" and "(c, l) \<in> set tbl"
  shows "1 \<le> j \<and> j \<le> n_grams \<and> map_of tbl c = Some l \<and> l \<noteq> []"
proof -
  from collect_dict_lookup [of words n_grams] assms(1) have "distinct (map fst m)" by auto
  with assms(2) have mj: "map_of m j = Some tbl" by simp
  from collect_dict_table [OF assms(1) mj] have range: "1 \<le> j \<and> j \<le> n_grams"
    and dist: "distinct (map fst tbl)"
    and look: "map_of tbl c =
            (if followers words n_grams j [0..<length words - n_grams] c = [] then None
             else Some (followers words n_grams j [0..<length words - n_grams] c))"
    by blast+
  from dist assms(3) have "map_of tbl c = Some l" by simp
  with look range show ?thesis by (auto split: if_splits)
qed

lemma collect_dict_example:
  "collect_dict [''a'', ''b'', ''a'', ''c''] 1 =
     Inr [(1, [([''a''], [''b'', ''c'']), ([''b''], [''a''])])]"
  by (simp add: collect_dict_def upt_rec py_index_def slice_def dict_append_def)

theorem collect_dict_nonempty_lists_witness:
  "collect_dict [''a'', ''b'', ''a'', ''c''] 1 =
     Inr [(1, [([''a''], [''b'', ''c'']), ([''b''], [''a''])])] \<and>
   (1, [([''a''], [''b'', ''c'']), ([''b''], [''a''])])
     \<in> set [(1::nat, [([''a''], [''b'', ''c'']), ([''b''], [''a''])])] \<and>
   ([''a''], [''b'', ''c'']) \<in> set [([''a''], [''b'', ''c'']), ([''b''], [''a''])] \<and>
   (1::nat) \<le> 1 \<and>
   map_of [([''a''], [''b'', ''c'']), ([''b''], [''a''])] [''a''] = Some [''b'', ''c''] \<and>
   [''b'', ''c''] \<noteq> ([] :: string list)"
  using collect_dict_nonempty_lists [OF collect_dict_example,
      of 1 "[([''a''], [''b'', ''c'']), ([''b''], [''a''])]" "[''a'']" "[''b'', ''c'']"]
    collect_dict_example
  by simp

section \<open>Rendering\<close>

lemma replace2_Nil: "py_replace [a, b] [b] [] = []"
  by (subst py_replace.simps) simp

lemma replace2_single: "py_replace [a, b] [b] [x] = [x]"
  by (subst py_replace.simps) (simp add: replace2_Nil)

lemma replace2_Cons:
  "py_replace [a, b] [b] (x # y # s) =
     (if x = a \<and> y = b then b # py_replace [a, b] [b] s
      else x # py_replace [a, b] [b] (y # s))"
  by (subst py_replace.simps) auto

lemma adjacent_skip: "x \<noteq> a \<Longrightarrow> adjacent a b (x # s) = adjacent a b s"
  by (cases s) auto

lemma adjacent_absent: "a \<notin> set s \<Longrightarrow> \<not> adjacent a b s"
  by (induction s rule: induct_list012) auto

lemma replace2_head: "x \<noteq> a \<Longrightarrow> py_replace [a, b] [b] (x # s) = x # py_replace [a, b] [b] s"
  by (cases s) (simp_all add: replace2_single replace2_Nil replace2_Cons)

lemma replace2_id: "\<not> adjacent a b s \<Longrightarrow> py_replace [a, b] [b] s = s"
  by (induction s rule: induct_list012) (auto simp: replace2_Nil replace2_single replace2_Cons)

lemma replace2_keeps:
  assumes "p \<noteq> a"
  shows "\<not> adjacent a a s \<Longrightarrow> q = p \<or> \<not> adjacent a q s \<Longrightarrow>
         \<not> adjacent a q (py_replace [a, p] [p] s)"
proof (induction s rule: induct_list012)
  case 1
  then show ?case by (simp add: replace2_Nil)
next
  case (2 x)
  then show ?case by (simp add: replace2_single)
next
  case (3 x y s)
  show ?case
  proof (cases "x = a \<and> y = p")
    case True
    with 3 assms show ?thesis
      by (auto simp: replace2_Cons adjacent_skip)
  next
    case False
    show ?thesis
    proof (cases "x = a")
      case True
      with False 3 assms have y: "y \<noteq> p" "y \<noteq> a" "y \<noteq> q" by auto
      from 3 have "\<not> adjacent a q (py_replace [a, p] [p] (y # s))" by auto
      with y True False show ?thesis
        by (simp add: replace2_Cons replace2_head)
    next
      case False
      with 3 show ?thesis
        by (auto simp: replace2_Cons adjacent_skip)
    qed
  qed
qed

lemma replace_chain_attaches:
  assumes "\<not> adjacent CHR '' '' CHR '' '' s"
  shows "marks_attached (replace_chain s)"
proof -
  let ?sp = "CHR '' ''"
  define s1 where "s1 = py_replace '' .'' ''.'' s"
  define s2 where "s2 = py_replace '' ,'' '','' s1"
  define s3 where "s3 = py_replace '' !'' ''!'' s2"
  define s4 where "s4 = py_replace '' ?'' ''?'' s3"
  define s5 where "s5 = py_replace '' ;'' '';'' s4"
  have s1: "\<not> adjacent ?sp ?sp s1" "\<not> adjacent ?sp CHR ''.'' s1"
    unfolding s1_def using assms by (simp_all add: replace2_keeps)
  have s2: "\<not> adjacent ?sp ?sp s2" "\<not> adjacent ?sp CHR ''.'' s2"
    "\<not> adjacent ?sp CHR '','' s2"
    unfolding s2_def using s1 by (simp_all add: replace2_keeps)
  have s3: "\<not> adjacent ?sp ?sp s3" "\<not> adjacent ?sp CHR ''.'' s3"
    "\<not> adjacent ?sp CHR '','' s3" "\<not> adjacent ?sp CHR ''!'' s3"
    unfolding s3_def using s2 by (simp_all add: replace2_keeps)
  have s4: "\<not> adjacent ?sp ?sp s4" "\<not> adjacent ?sp CHR ''.'' s4"
    "\<not> adjacent ?sp CHR '','' s4" "\<not> adjacent ?sp CHR ''!'' s4"
    "\<not> adjacent ?sp CHR ''?'' s4"
    unfolding s4_def using s3 by (simp_all add: replace2_keeps)
  have s5: "\<not> adjacent ?sp ?sp s5" "\<not> adjacent ?sp CHR ''.'' s5"
    "\<not> adjacent ?sp CHR '','' s5" "\<not> adjacent ?sp CHR ''!'' s5"
    "\<not> adjacent ?sp CHR ''?'' s5" "\<not> adjacent ?sp CHR '';'' s5"
    unfolding s5_def using s4 by (simp_all add: replace2_keeps)
  have "replace_chain s = s5"
    by (simp add: replace_chain_def s1_def s2_def s3_def s4_def s5_def)
  with s5 show ?thesis by (simp add: marks_attached_def)
qed

lemma replace_chain_fixed: "marks_attached s \<Longrightarrow> replace_chain s = s"
  by (simp add: marks_attached_def replace_chain_def replace2_id)

lemma render_attached:
  assumes "\<not> adjacent CHR '' '' CHR '' '' s"
  shows "render s = replace_chain s" and "render (replace_chain s) = replace_chain s"
  using replace_chain_fixed [OF replace_chain_attaches [OF assms]]
  by (simp_all add: render_def)

lemma adjacent_append_space:
  "CHR '' '' \<notin> set x \<Longrightarrow> r \<noteq> [] \<Longrightarrow> hd r \<noteq> CHR '' '' \<Longrightarrow>
   \<not> adjacent CHR '' '' CHR '' '' r \<Longrightarrow>
   \<not> adjacent CHR '' '' CHR '' '' (x @ CHR '' '' # r)"
  by (induction x) (auto simp: adjacent_skip neq_Nil_conv)

lemma join_sp_head:
  "x \<noteq> [] \<Longrightarrow> join_sp (x # xs) \<noteq> [] \<and> hd (join_sp (x # xs)) = hd x"
  by (cases xs) auto

lemma join_sp_single_spaces:
  "\<forall>t \<in> set toks. t \<noteq> [] \<and> CHR '' '' \<notin> set t \<Longrightarrow>
   \<not> adjacent CHR '' '' CHR '' '' (join_sp toks)"
proof (induction toks rule: join_sp.induct)
  case 1
  then show ?case by simp
next
  case (2 x)
  then show ?case by (simp add: adjacent_absent)
next
  case (3 x y ys)
  then have "\<not> adjacent CHR '' '' CHR '' '' (join_sp (y # ys))" by simp
  moreover from 3 have "join_sp (y # ys) \<noteq> [] \<and> hd (join_sp (y # ys)) = hd y"
    by (intro join_sp_head) simp
  moreover from 3 have "hd y \<noteq> CHR '' ''" by (cases y) auto
  moreover from 3 have "CHR '' '' \<notin> set x" by simp
  ultimately show ?case
    by (simp add: adjacent_append_space)
qed

text \<open>
  C7. For every token sequence, the rendering of \<^verbatim>\<open>generate_text\<close> (the \<^verbatim>\<open>for\<close>
  loop of five chained replacements) applied twice to the string joined with single
  spaces gives the same string as applied once. A token is a word or a punctuation mark
  as \<^verbatim>\<open>nltk.word_tokenize\<close> yields it: a string that is not empty and contains no
  space, which is the hypothesis on \<open>toks\<close>.
\<close>

theorem render_idempotent:
  assumes "\<forall>t \<in> set toks. t \<noteq> [] \<and> CHR '' '' \<notin> set t"
  shows "render (render (join_sp toks)) = render (join_sp toks)"
  using render_attached [OF join_sp_single_spaces [OF assms]] by simp

theorem render_idempotent_witness:
  "render (render (join_sp [''Wait'', '','', ''he'', ''said'', ''.''])) = ''Wait, he said.''"
proof -
  have "render (join_sp [''Wait'', '','', ''he'', ''said'', ''.'']) = ''Wait, he said.''"
    by code_simp
  with render_idempotent [of "[''Wait'', '','', ''he'', ''said'', ''.'']"]
  show ?thesis by simp
qed

section \<open>The fields of the generated text\<close>

lemma split_sp_nonempty: "split_sp s \<noteq> []"
  by (induction s) (auto split: list.splits)

lemma split_sp_word: "CHR '' '' \<notin> set w \<Longrightarrow> split_sp w = [w]"
  by (induction w) auto

lemma split_sp_prefix: "CHR '' '' \<notin> set x \<Longrightarrow> split_sp (x @ CHR '' '' # r) = x # split_sp r"
  by (induction x) auto

lemma split_sp_suffix: "CHR '' '' \<notin> set w \<Longrightarrow> split_sp (s @ CHR '' '' # w) = split_sp s @ [w]"
proof (induction s)
  case Nil
  then show ?case by (simp add: split_sp_word)
next
  case (Cons c s)
  then show ?case
    using split_sp_nonempty [of s] by (auto split: list.splits)
qed

lemma split_join:
  "toks \<noteq> [] \<Longrightarrow> \<forall>t \<in> set toks. CHR '' '' \<notin> set t \<Longrightarrow> split_sp (join_sp toks) = toks"
  by (induction toks rule: join_sp.induct) (simp_all add: split_sp_word split_sp_prefix)

section \<open>Seed selection\<close>

lemma choice_member: "choice randbelow g l = Inr (w, g') \<Longrightarrow> w \<in> set l"
  by (auto simp: choice_def split: if_splits prod.splits)

lemma capitalized_keys_result:
  "capitalized_keys isupper ks =
     (if [] \<in> set ks then Inl IndexError else Inr (filter (capitalized isupper) ks))"
proof (induction ks)
  case Nil
  then show ?case by simp
next
  case (Cons k ks)
  have "capitalized isupper k \<longleftrightarrow> k \<noteq> [] \<and> k ! 0 \<noteq> [] \<and> isupper (k ! 0 ! 0)"
    by (simp add: capitalized_def)
  with Cons show ?case
    by (auto simp: py_index_def)
qed

lemma py_max_member: "py_max xs = Inr n \<Longrightarrow> n \<in> set xs"
proof -
  have "fold max ys (y :: nat) \<in> set (y # ys)" for y ys
    by (induction ys arbitrary: y) (auto simp: max_def)
  then show "py_max xs = Inr n \<Longrightarrow> n \<in> set xs"
    by (cases xs) auto
qed

lemma py_max_Max: "xs \<noteq> [] \<Longrightarrow> py_max xs = Inr (Max (set xs))"
proof (cases xs)
  case Nil
  assume "xs \<noteq> []"
  with Nil show ?thesis by simp
next
  case (Cons x ys)
  show ?thesis
    unfolding Cons by (simp only: py_max.simps Max.set_eq_fold)
qed

lemma py_max_table:
  assumes "words \<noteq> []"
  shows "\<exists>n tbl. n = Max (fst ` set words) \<and> py_max (map fst words) = Inr n \<and>
           map_of words n = Some tbl \<and> (n, tbl) \<in> set words"
proof -
  from assms have n: "py_max (map fst words) = Inr (Max (fst ` set words))"
    using py_max_Max [of "map fst words"] by simp
  from py_max_member [OF n] obtain tbl where "map_of words (Max (fst ` set words)) = Some tbl"
    by (cases "map_of words (Max (fst ` set words))") (auto simp: map_of_eq_None_iff)
  with n show ?thesis by (blast dest: map_of_SomeD)
qed

lemma select_seed_Inr:
  assumes "select_seed isupper randbelow g words = Inr (seed, g1)"
  shows "\<exists>n tbl. py_max (map fst words) = Inr n \<and> map_of words n = Some tbl \<and>
           (n, tbl) \<in> set words \<and> [] \<notin> fst ` set tbl \<and>
           choice randbelow g (filter (capitalized isupper) (map fst tbl)) = Inr (seed, g1) \<and>
           seed \<in> fst ` set tbl \<and> capitalized isupper seed"
proof -
  from assms obtain n tbl where n: "py_max (map fst words) = Inr n"
    and t: "map_of words n = Some tbl"
    and c: "(case capitalized_keys isupper (map fst tbl) of
                  Inl e \<Rightarrow> Inl e
                | Inr caps \<Rightarrow> choice randbelow g caps) = Inr (seed, g1)"
    by (auto simp: select_seed_def split: sum.splits option.splits)
  from c have ne: "[] \<notin> fst ` set tbl"
    and ch: "choice randbelow g (filter (capitalized isupper) (map fst tbl)) = Inr (seed, g1)"
    by (auto simp: capitalized_keys_result split: if_splits)
  from choice_member [OF ch] have "seed \<in> fst ` set tbl \<and> capitalized isupper seed"
    by auto
  with n t ne ch show ?thesis by (blast dest: map_of_SomeD)
qed

text \<open>
  C5. Let \<open>words\<close> be a non-empty dict of tables, \<open>n\<close> its largest order, the maximum
  of its keys (which is what \<^verbatim>\<open>max(words.keys())\<close> returns, wherever that key stands
  in the dict), and \<open>tbl\<close> the table of that order, \<^verbatim>\<open>words[n]\<close>.
  If no key of \<open>tbl\<close> is capitalized, \<^verbatim>\<open>generate_text\<close> fails
  at the choice of the seed, before the loop that produces tokens: \<^verbatim>\<open>random.choice\<close>
  raises \<^verbatim>\<open>IndexError\<close> on the empty list of candidates (the failure that the
  specification calls \<open>NoCapitalizedSeed\<close>). Otherwise (no key of the table being the
  empty tuple) the seed is what \<^verbatim>\<open>random.choice\<close> draws from the list of the
  capitalized keys of \<open>tbl\<close>: it is one of them, and each of them is the seed for some
  random source.
\<close>

theorem seed_selection:
  assumes "words \<noteq> []"
  shows "\<exists>n tbl. n = Max (fst ` set words) \<and>
     py_max (map fst words) = Inr n \<and> map_of words n = Some tbl \<and>
     ((\<forall>c \<in> fst ` set tbl. \<not> capitalized isupper c) \<longrightarrow>
         select_seed isupper randbelow g words = Inl IndexError \<and>
         generate_text isupper randbelow g word_pairs words limit min_length = Inl IndexError) \<and>
     ((\<exists>c \<in> fst ` set tbl. capitalized isupper c) \<and> [] \<notin> fst ` set tbl \<longrightarrow>
         select_seed isupper randbelow g words
           = choice randbelow g (filter (capitalized isupper) (map fst tbl)) \<and>
         (\<exists>seed g1. select_seed isupper randbelow g words = Inr (seed, g1) \<and>
                     seed \<in> fst ` set tbl \<and> capitalized isupper seed) \<and>
         (\<forall>c \<in> fst ` set tbl. capitalized isupper c \<longrightarrow>
             (\<exists>randbelow' g1. select_seed isupper randbelow' g words = Inr (c, g1))))"
proof -
  from py_max_table [OF assms] obtain n tbl where
    mx: "n = Max (fst ` set words)" and
    n: "py_max (map fst words) = Inr n" and t: "map_of words n = Some tbl" by blast
  have sel: "select_seed isupper rb g words =
               (if [] \<in> fst ` set tbl then Inl IndexError
                else choice rb g (filter (capitalized isupper) (map fst tbl)))"
    for rb :: "'a randbelow"
    by (simp add: select_seed_def n t capitalized_keys_result)
  have none: "select_seed isupper randbelow g words = Inl IndexError \<and>
         generate_text isupper randbelow g word_pairs words limit min_length = Inl IndexError"
    if "\<forall>c \<in> fst ` set tbl. \<not> capitalized isupper c"
  proof -
    from that have "filter (capitalized isupper) (map fst tbl) = []"
      by (auto simp: filter_empty_conv)
    then have "select_seed isupper randbelow g words = Inl IndexError"
      by (simp add: sel choice_def)
    then show ?thesis
      by (simp add: generate_text_def generate_unrendered_def)
  qed
  have some: "select_seed isupper randbelow g words
           = choice randbelow g (filter (capitalized isupper) (map fst tbl)) \<and>
         (\<exists>seed g1. select_seed isupper randbelow g words = Inr (seed, g1) \<and>
                     seed \<in> fst ` set tbl \<and> capitalized isupper seed) \<and>
         (\<forall>c \<in> fst ` set tbl. capitalized isupper c \<longrightarrow>
             (\<exists>randbelow' g1. select_seed isupper randbelow' g words = Inr (c, g1)))"
    if ex: "\<exists>c \<in> fst ` set tbl. capitalized isupper c" and ne: "[] \<notin> fst ` set tbl"
  proof -
    define caps where "caps = filter (capitalized isupper) (map fst tbl)"
    have caps_set: "set caps = {c \<in> fst ` set tbl. capitalized isupper c}"
      by (auto simp: caps_def)
    from ex have caps: "caps \<noteq> []"
      unfolding caps_def by (auto simp: filter_empty_conv)
    from ne have eq: "select_seed isupper rb g words = choice rb g caps"
      for rb :: "'a randbelow"
      by (simp add: sel caps_def)
    obtain i g1 where "randbelow g (length caps) = (i, g1)" by (cases "randbelow g (length caps)")
    with caps have ch: "choice randbelow g caps = Inr (caps ! (i mod length caps), g1)"
      by (simp add: choice_def)
    from caps have "caps ! (i mod length caps) \<in> set caps" by simp
    with caps_set have mem: "caps ! (i mod length caps) \<in> fst ` set tbl \<and>
                    capitalized isupper (caps ! (i mod length caps))"
      by blast
    have any: "\<exists>randbelow' g1. select_seed isupper randbelow' g words = Inr (c, g1)"
      if c: "c \<in> fst ` set tbl" "capitalized isupper c" for c
    proof -
      from c caps_set have "c \<in> set caps" by blast
      then obtain k where k: "k < length caps" "caps ! k = c"
        by (auto simp: in_set_conv_nth)
      with caps have "choice (\<lambda>g n. (k, g)) g caps = Inr (c, g)"
        by (simp add: choice_def)
      then show ?thesis using eq [of "\<lambda>g n. (k, g)"] by auto
    qed
    from eq [of randbelow] ch mem any show ?thesis unfolding caps_def by auto
  qed
  from mx n t none some show ?thesis by blast
qed

lemma scenario_model_built:
  "collect_dict [''A'', ''b'', ''c'', ''.'', ''A'', ''b'', ''d'', ''.''] 2 = Inr scenario_model"
  by (simp add: scenario_model_def collect_dict_def upt_rec py_index_def slice_def dict_append_def)

lemma lowercase_model_built:
  "collect_dict [''a'', ''b'', ''c''] 2 = Inr lowercase_model"
  by (simp add: lowercase_model_def collect_dict_def upt_rec py_index_def slice_def dict_append_def)

theorem seed_selection_witness:
  "generate_text ascii_isupper pick_last () lowercase_model lowercase_model 4 1 = Inl IndexError \<and>
   select_seed ascii_isupper pick_last () scenario_model
     = choice pick_last () [[''A'', ''b'']] \<and>
   (\<exists>seed g1. select_seed ascii_isupper pick_last () scenario_model = Inr (seed, g1) \<and>
      capitalized ascii_isupper seed) \<and>
   Max (fst ` set reversed_model) = 2 \<and>
   select_seed ascii_isupper pick_last () reversed_model
     = choice pick_last () [[''A'', ''b'']]"
proof -
  let ?r = "[([''A'', ''b''], [''c''])]"
  have rev_max: "Max (fst ` set reversed_model) = 2"
    and rev_tbl: "map_of reversed_model 2 = Some ?r"
    by (simp_all add: reversed_model_def)
  have rev_keys: "(\<exists>c \<in> fst ` set ?r. capitalized ascii_isupper c) \<and> [] \<notin> fst ` set ?r"
    by (simp add: capitalized_def ascii_isupper_def)
  have rev_caps: "filter (capitalized ascii_isupper) (map fst ?r) = [[''A'', ''b'']]"
    by (simp add: capitalized_def ascii_isupper_def)
  have "reversed_model \<noteq> []" by (simp add: reversed_model_def)
  from seed_selection [OF this, of ascii_isupper pick_last "()" reversed_model 4 1]
  obtain k tb where "k = Max (fst ` set reversed_model)"
    and "map_of reversed_model k = Some tb"
    and rev: "(\<exists>c \<in> fst ` set tb. capitalized ascii_isupper c) \<and> [] \<notin> fst ` set tb \<longrightarrow>
         select_seed ascii_isupper pick_last () reversed_model
           = choice pick_last () (filter (capitalized ascii_isupper) (map fst tb))"
    by blast
  with rev_max rev_tbl have "tb = ?r" by simp
  with rev rev_keys have "select_seed ascii_isupper pick_last () reversed_model
           = choice pick_last () (filter (capitalized ascii_isupper) (map fst ?r))"
    by blast
  then have third: "select_seed ascii_isupper pick_last () reversed_model
           = choice pick_last () [[''A'', ''b'']]"
    unfolding rev_caps .
  let ?t = "[([''a'', ''b''], [''c''])]"
  have low_max: "py_max (map fst lowercase_model) = Inr 2"
    and low_tbl: "map_of lowercase_model 2 = Some ?t"
    by (simp_all add: lowercase_model_def)
  have low_keys: "\<forall>c \<in> fst ` set ?t. \<not> capitalized ascii_isupper c"
    by (simp add: capitalized_def ascii_isupper_def)
  have "lowercase_model \<noteq> []" by (simp add: lowercase_model_def)
  from seed_selection [OF this, of ascii_isupper pick_last "()" lowercase_model 4 1]
  obtain n tbl where "py_max (map fst lowercase_model) = Inr n"
    and "map_of lowercase_model n = Some tbl"
    and low: "(\<forall>c \<in> fst ` set tbl. \<not> capitalized ascii_isupper c) \<longrightarrow>
         generate_text ascii_isupper pick_last () lowercase_model lowercase_model 4 1
           = Inl IndexError"
    by blast
  with low_max low_tbl have "tbl = ?t" by simp
  with low low_keys
  have first: "generate_text ascii_isupper pick_last () lowercase_model lowercase_model 4 1
           = Inl IndexError"
    by blast
  let ?u = "[([''A'', ''b''], [''c'', ''d'']), ([''b'', ''c''], [''.'']), ([''c'', ''.''], [''A'']),
           ([''.'', ''A''], [''b'']), ([''b'', ''d''], [''.''])]"
  have up_max: "py_max (map fst scenario_model) = Inr 2"
    and up_tbl: "map_of scenario_model 2 = Some ?u"
    by (simp_all add: scenario_model_def)
  have up_keys: "(\<exists>c \<in> fst ` set ?u. capitalized ascii_isupper c) \<and> [] \<notin> fst ` set ?u"
    by (simp add: capitalized_def ascii_isupper_def)
  have up_caps: "filter (capitalized ascii_isupper) (map fst ?u) = [[''A'', ''b'']]"
    by (simp add: capitalized_def ascii_isupper_def)
  have "scenario_model \<noteq> []" by (simp add: scenario_model_def)
  from seed_selection [OF this, of ascii_isupper pick_last "()" scenario_model 4 1]
  obtain n' tbl' where "py_max (map fst scenario_model) = Inr n'"
    and "map_of scenario_model n' = Some tbl'"
    and up: "(\<exists>c \<in> fst ` set tbl'. capitalized ascii_isupper c) \<and> [] \<notin> fst ` set tbl' \<longrightarrow>
         select_seed ascii_isupper pick_last () scenario_model
           = choice pick_last () (filter (capitalized ascii_isupper) (map fst tbl')) \<and>
         (\<exists>seed g1. select_seed ascii_isupper pick_last () scenario_model = Inr (seed, g1) \<and>
                     seed \<in> fst ` set tbl' \<and> capitalized ascii_isupper seed)"
    by blast
  with up_max up_tbl have "tbl' = ?u" by simp
  with up up_keys have "select_seed ascii_isupper pick_last () scenario_model
           = choice pick_last () (filter (capitalized ascii_isupper) (map fst ?u)) \<and>
         (\<exists>seed g1. select_seed ascii_isupper pick_last () scenario_model = Inr (seed, g1) \<and>
                     seed \<in> fst ` set ?u \<and> capitalized ascii_isupper seed)"
    by blast
  with first third rev_max show ?thesis
    unfolding up_caps by blast
qed

section \<open>The backoff search\<close>

lemma choice_no_KeyError: "choice randbelow g l \<noteq> Inl (KeyError_int k)"
  by (simp add: choice_def split: prod.split)

lemma backoff_loop_orders:
  assumes "\<And>j. 1 \<le> j \<Longrightarrow> j \<le> n \<Longrightarrow> map_of m j \<noteq> None"
  shows "1 \<le> length key_id \<Longrightarrow> length key_id \<le> n \<Longrightarrow>
         backoff_loop randbelow g m r key_id min_length \<noteq> Inl (KeyError_int k)"
proof (induction r arbitrary: key_id)
  case 0
  with assms [of "length key_id"] show ?case
    by (auto simp: choice_no_KeyError split: option.splits)
next
  case (Suc r)
  have "backoff_loop randbelow g m r (if 1 < length key_id then drop 1 key_id else key_id)
          min_length \<noteq> Inl (KeyError_int k)"
    using Suc.prems by (intro Suc.IH) auto
  with assms [of "length key_id"] Suc.prems show ?case
    by (auto simp: choice_no_KeyError split: option.splits)
qed

text \<open>
  C10. In the model that \<^verbatim>\<open>collect_dict\<close> returns, the table of every order \<open>j\<close> in
  \<open>1..N\<close> exists, and each of its keys is a tuple of exactly \<open>j\<close> tokens, the slice
  \<open>words[i:i+j]\<close> of a window start \<open>i < len(words) - N\<close>. Hence
  \<^verbatim>\<open>get_next_word\<close>, called with a key of a length \<open>j\<close> in \<open>1..N\<close>, never misses a
  table: it raises no \<^verbatim>\<open>KeyError\<close> for an order.
\<close>

theorem collect_dict_key_lengths:
  assumes "collect_dict words n_grams = Inr m" and "1 \<le> j" and "j \<le> n_grams"
  shows "\<exists>tbl. map_of m j = Some tbl \<and>
           (\<forall>c \<in> fst ` set tbl.
              length c = j \<and> (\<exists>i<length words - n_grams. c = slice words i (i + j))) \<and>
           (\<forall>key_id randbelow g min_length k.
              length key_id = j \<longrightarrow>
              get_next_word randbelow (g :: 'g) m key_id min_length \<noteq> Inl (KeyError_int k))"
proof -
  have tables: "\<exists>tbl. map_of m j = Some tbl \<and>
           (\<forall>c. c \<in> fst ` set tbl \<longleftrightarrow>
                   (\<exists>i<length words - n_grams. slice words i (i + j) = c))"
    if j: "1 \<le> j" "j \<le> n_grams" for j
  proof -
    from collect_dict_order_table [OF j, of words] assms(1) obtain tbl where
      mj: "map_of m j = Some tbl" and
      tbl: "\<And>c. map_of tbl c =
            (if followers words n_grams j [0..<length words - n_grams] c = [] then None
             else Some (followers words n_grams j [0..<length words - n_grams] c))"
      by auto
    from mj table_keys [of tbl words n_grams j "length words - n_grams", OF tbl]
    show ?thesis by blast
  qed
  from tables [OF assms(2,3)] obtain tbl where
    mj: "map_of m j = Some tbl" and
    keys: "\<And>c. c \<in> fst ` set tbl \<longleftrightarrow> (\<exists>i<length words - n_grams. slice words i (i + j) = c)"
    by blast
  have "length c = j \<and> (\<exists>i<length words - n_grams. c = slice words i (i + j))"
    if "c \<in> fst ` set tbl" for c
  proof -
    from that keys obtain i where i: "i < length words - n_grams" "slice words i (i + j) = c"
      by blast
    with assms(3) have "length c = j" by (auto simp: slice_def)
    with i show ?thesis by blast
  qed
  moreover have "get_next_word randbelow (g :: 'g) m key_id min_length \<noteq> Inl (KeyError_int k)"
    if "length key_id = j" for key_id randbelow g min_length k
    unfolding get_next_word_def
  proof (rule backoff_loop_orders [where n = n_grams])
    show "map_of m j \<noteq> None" if "1 \<le> j" "j \<le> n_grams" for j
      using tables [OF that] by auto
  qed (use that assms in simp_all)
  ultimately show ?thesis using mj by blast
qed

theorem collect_dict_key_lengths_witness:
  "collect_dict [''a'', ''b'', ''a'', ''c''] 1 =
     Inr [(1, [([''a''], [''b'', ''c'']), ([''b''], [''a''])])] \<and> (1::nat) \<le> 1 \<and>
   (\<exists>tbl. map_of [(1::nat, [([''a''], [''b'', ''c'']), ([''b''], [''a''])])] 1 = Some tbl \<and>
           (\<forall>c \<in> fst ` set tbl.
              length c = 1 \<and>
              (\<exists>i<length [''a'', ''b'', ''a'', ''c''] - 1.
                 c = slice [''a'', ''b'', ''a'', ''c''] i (i + 1))) \<and>
           (\<forall>key_id randbelow g min_length k.
              length key_id = 1 \<longrightarrow>
              get_next_word randbelow (g :: unit)
                [(1, [([''a''], [''b'', ''c'']), ([''b''], [''a''])])] key_id min_length
              \<noteq> Inl (KeyError_int k)))"
  using collect_dict_key_lengths [OF collect_dict_example, of 1, where ?'g = unit]
    collect_dict_example
  by simp

lemma backoff_model_built:
  "collect_dict [''A'', ''b'', ''b'', ''x'', ''y''] 2 = Inr backoff_model"
  by (simp add: backoff_model_def collect_dict_def upt_rec py_index_def slice_def dict_append_def)

lemma short_model_built:
  "collect_dict [''A'', ''b'', ''c''] 2 = Inr short_model"
  by (simp add: short_model_def collect_dict_def upt_rec py_index_def slice_def dict_append_def)

text \<open>
  C1, at a failing input. In the model built from \<open>A b b x y\<close> with \<open>N = 2\<close>, the
  context \<open>(A, b)\<close> has the following-list \<open>[b]\<close> at order 2 and its last token \<open>b\<close> has
  \<open>[x, y]\<close> at order 1; with \<open>min_length = 3\<close> neither has enough support. The
  statement after the loop reads the rebound, truncated \<^verbatim>\<open>key_id\<close>:
  \<^verbatim>\<open>get_next_word\<close> draws from \<open>[x, y]\<close>, the order-1 list of \<open>(b)\<close>, not from the
  order-2 list \<open>[b]\<close> of the original context.
\<close>

theorem get_next_word_fallback_reads_order_1:
  "\<exists>m tbl1 tbl2. collect_dict [''A'', ''b'', ''b'', ''x'', ''y''] 2 = Inr m \<and>
     map_of m 1 = Some tbl1 \<and> map_of m 2 = Some tbl2 \<and>
     map_of tbl2 [''A'', ''b''] = Some [''b''] \<and> map_of tbl1 [''b''] = Some [''x'', ''y''] \<and>
     get_next_word randbelow g m [''A'', ''b''] 3 = choice randbelow g [''x'', ''y'']"
proof -
  have "get_next_word randbelow g backoff_model [''A'', ''b''] 3
          = choice randbelow g [''x'', ''y'']"
    by (simp add: get_next_word_def backoff_model_def numeral_2_eq_2)
  moreover have "\<exists>tbl1 tbl2. map_of backoff_model 1 = Some tbl1 \<and>
     map_of backoff_model 2 = Some tbl2 \<and>
     map_of tbl2 [''A'', ''b''] = Some [''b''] \<and> map_of tbl1 [''b''] = Some [''x'', ''y'']"
    by (simp add: backoff_model_def)
  ultimately show ?thesis
    using backoff_model_built by blast
qed

text \<open>
  C8, at a failing input. In the model built from \<open>A b c\<close> with \<open>N = 2\<close>, the context
  \<open>(A, b)\<close> is a key of the order-2 table, with one successor. With \<open>min_length = 2\<close>
  the loop finds no support, and the statement after the loop looks the truncated key
  \<open>(b)\<close> up in the order-1 table, where it is absent: \<^verbatim>\<open>get_next_word\<close> raises
  \<^verbatim>\<open>KeyError\<close> instead of returning a token, and so does \<^verbatim>\<open>generate_text\<close>.
\<close>

theorem get_next_word_raises_KeyError:
  "\<exists>m tbl2. collect_dict [''A'', ''b'', ''c''] 2 = Inr m \<and>
     map_of m 2 = Some tbl2 \<and> map_of tbl2 [''A'', ''b''] = Some [''c''] \<and>
     get_next_word randbelow g m [''A'', ''b''] 2 = Inl (KeyError_tuple [''b'']) \<and>
     generate_text ascii_isupper randbelow g m m 3 2 = Inl (KeyError_tuple [''b''])"
proof -
  have nw: "get_next_word randbelow g short_model [''A'', ''b''] 2 = Inl (KeyError_tuple [''b''])"
    for g
    by (simp add: get_next_word_def short_model_def numeral_2_eq_2)
  have "markov_loop randbelow short_model 3 2 g1 [''A'', ''b''] ''A b''
      = Inl (KeyError_tuple [''b''])" for g1
    by (subst markov_loop.simps) (simp add: nw)
  moreover have "select_seed ascii_isupper randbelow g short_model
      = Inr ([''A'', ''b''], snd (randbelow g 1))"
    by (simp add: select_seed_def short_model_def py_index_def ascii_isupper_def choice_def
        split: prod.split)
  ultimately
  have "generate_text ascii_isupper randbelow g short_model short_model 3 2
          = Inl (KeyError_tuple [''b''])"
    by (simp add: generate_text_def generate_unrendered_def)
  moreover have "\<exists>tbl2. map_of short_model 2 = Some tbl2 \<and>
     map_of tbl2 [''A'', ''b''] = Some [''c'']"
    by (simp add: short_model_def)
  ultimately show ?thesis
    using short_model_built nw by blast
qed

section \<open>Generation\<close>

lemma backoff_loop_member:
  "backoff_loop randbelow g m r key_id min_length = Inr (w, g') \<Longrightarrow>
   \<exists>j tbl c l. (j, tbl) \<in> set m \<and> (c, l) \<in> set tbl \<and> w \<in> set l"
proof (induction r arbitrary: key_id)
  case 0
  then show ?case
    by (auto split: option.splits dest!: map_of_SomeD choice_member)
next
  case (Suc r)
  then show ?case
    by (auto split: option.splits if_splits dest!: map_of_SomeD choice_member)
qed

lemma get_next_word_space_free:
  assumes "get_next_word randbelow g m key_id min_length = Inr (w, g')" and "space_free m"
  shows "CHR '' '' \<notin> set w"
proof -
  from backoff_loop_member [OF assms(1) [unfolded get_next_word_def]]
  obtain j tbl c l where "(j, tbl) \<in> set m" "(c, l) \<in> set tbl" "w \<in> set l" by blast
  with assms(2) show ?thesis by (fastforce simp: space_free_def)
qed

lemma markov_loop_fields:
  "markov_loop randbelow m limit min_length g first_key markov_text = Inr (text', g') \<Longrightarrow>
   space_free m \<Longrightarrow>
   (\<exists>ws. split_sp text' = split_sp markov_text @ ws) \<and>
   length (split_sp text') = max limit (length (split_sp markov_text)) \<and>
   (limit \<le> length (split_sp markov_text) \<longrightarrow> text' = markov_text \<and> g' = g)"
proof (induction randbelow m limit min_length g first_key markov_text
       rule: markov_loop.induct)
  case (1 randbelow word_pairs limit min_length g first_key markov_text)
  show ?case
  proof (cases "length (split_sp markov_text) < limit")
    case False
    with "1.prems" show ?thesis
      by (simp add: markov_loop.simps)
  next
    case True
    with "1.prems" obtain next_word g1 where
      nw: "get_next_word randbelow g word_pairs first_key min_length = Inr (next_word, g1)"
      and rec: "markov_loop randbelow word_pairs limit min_length g1
                  (drop 1 first_key @ [next_word]) (markov_text @ '' '' @ next_word)
                = Inr (text', g')"
      by (subst (asm) markov_loop.simps) (auto split: sum.splits)
    from get_next_word_space_free [OF nw] "1.prems" have sf: "CHR '' '' \<notin> set next_word"
      by simp
    then have step: "split_sp (markov_text @ '' '' @ next_word) = split_sp markov_text @ [next_word]"
      by (simp add: split_sp_suffix)
    from "1.IH" [OF True nw refl rec] "1.prems" obtain ws where
      ws: "split_sp text' = split_sp (markov_text @ '' '' @ next_word) @ ws"
      and len: "length (split_sp text') =
                  max limit (length (split_sp (markov_text @ '' '' @ next_word)))"
      by auto
    from ws step have "split_sp text' = split_sp markov_text @ (next_word # ws)" by simp
    moreover from len step True
    have "length (split_sp text') = max limit (length (split_sp markov_text))" by simp
    ultimately show ?thesis using True by auto
  qed
qed

text \<open>
  C3, as the code has it. Let no token of the model contain a space. Whenever
  \<^verbatim>\<open>generate_text\<close> returns, the text it has accumulated before the rendering splits
  into the tokens of the seed followed by the sampled tokens, \<open>max(limit, N)\<close> tokens in
  all for a seed of \<open>N\<close> tokens, that is exactly \<open>limit\<close> tokens when \<open>limit \<ge> N\<close>. When
  \<open>limit \<le> N\<close> the text is the whole seed, not cut to \<open>limit\<close> tokens, and the random
  source is not used after the choice of the seed.
\<close>

theorem generate_text_length:
  assumes "generate_text isupper randbelow g m m limit min_length = Inr (out, g')"
    and "space_free m"
  shows "\<exists>seed g1 markov_text.
           select_seed isupper randbelow g m = Inr (seed, g1) \<and>
           generate_unrendered isupper randbelow g m m limit min_length = Inr (markov_text, g') \<and>
           out = render markov_text \<and>
           take (length seed) (split_sp markov_text) = seed \<and>
           length (split_sp markov_text) = max limit (length seed) \<and>
           (limit \<le> length seed \<longrightarrow> markov_text = join_sp seed \<and> g' = g1)"
proof -
  from assms(1) obtain markov_text where
    un: "generate_unrendered isupper randbelow g m m limit min_length = Inr (markov_text, g')"
    and out: "out = render markov_text"
    by (auto simp: generate_text_def split: sum.splits)
  from un obtain seed g1 where
    seed: "select_seed isupper randbelow g m = Inr (seed, g1)" and
    loop: "markov_loop randbelow m limit min_length g1 seed (join_sp seed) = Inr (markov_text, g')"
    by (auto simp: generate_unrendered_def split: sum.splits)
  from select_seed_Inr [OF seed] obtain n tbl where
    "(n, tbl) \<in> set m" and "seed \<in> fst ` set tbl" and "capitalized isupper seed"
    by blast
  with assms(2) have ne: "seed \<noteq> []" and sf: "\<forall>t \<in> set seed. CHR '' '' \<notin> set t"
    by (fastforce simp: space_free_def capitalized_def)+
  then have sj: "split_sp (join_sp seed) = seed" by (simp add: split_join)
  from markov_loop_fields [OF loop assms(2)] sj obtain ws where
    "split_sp markov_text = seed @ ws"
    "length (split_sp markov_text) = max limit (length seed)"
    "limit \<le> length seed \<longrightarrow> markov_text = join_sp seed \<and> g' = g1"
    by auto
  with seed un out show ?thesis by auto
qed


lemma scenario_model_space_free: "space_free scenario_model"
  by (simp add: space_free_def scenario_model_def)

lemma scenario_generate_text:
  "generate_text ascii_isupper pick_last () scenario_model scenario_model 4 1 = Inr (''A b d.'', ())"
  by code_simp

theorem generate_text_length_witness:
  "generate_text ascii_isupper pick_last () scenario_model scenario_model 4 1
     = Inr (''A b d.'', ()) \<and>
   space_free scenario_model \<and>
   (\<exists>seed g1 markov_text.
           select_seed ascii_isupper pick_last () scenario_model = Inr (seed, g1) \<and>
           generate_unrendered ascii_isupper pick_last () scenario_model scenario_model 4 1
             = Inr (markov_text, ()) \<and>
           ''A b d.'' = render markov_text \<and>
           take (length seed) (split_sp markov_text) = seed \<and>
           length (split_sp markov_text) = max 4 (length seed) \<and>
           (4 \<le> length seed \<longrightarrow> markov_text = join_sp seed \<and> () = g1))"
  using generate_text_length [OF scenario_generate_text scenario_model_space_free]
    scenario_generate_text scenario_model_space_free
  by simp

text \<open>
  C3, as the claim states it, fails: with \<open>limit = 1\<close> and \<open>N = 2\<close> the loop does not
  run and the output is the whole seed \<open>A b\<close>, two tokens and not one.
\<close>

theorem generate_text_keeps_whole_seed:
  "generate_unrendered ascii_isupper pick_last () scenario_model scenario_model 1 1
     = Inr (''A b'', ()) \<and>
   generate_text ascii_isupper pick_last () scenario_model scenario_model 1 1
     = Inr (''A b'', ()) \<and>
   split_sp ''A b'' = [''A'', ''b''] \<and> length (split_sp ''A b'') = 2"
  by code_simp

text \<open>
  C9. From the tokens \<open>A b c . A b d .\<close> with \<open>N = 2\<close>, \<^verbatim>\<open>collect_dict\<close> builds a
  model whose order-2 table maps \<open>(A, b)\<close> to \<open>[c, d]\<close>. With the source that always picks
  the last candidate, \<open>limit = 4\<close> and \<open>min_length = 1\<close>, the seed is \<open>(A, b)\<close>, the text
  before the rendering is \<open>A b d .\<close>, that is the tokens \<open>A\<close>, \<open>b\<close>, \<open>d\<close>, \<open>.\<close>, and
  \<^verbatim>\<open>generate_text\<close> returns \<open>A b d.\<close>.
\<close>

theorem concrete_scenario:
  "\<exists>m tbl. collect_dict [''A'', ''b'', ''c'', ''.'', ''A'', ''b'', ''d'', ''.''] 2 = Inr m \<and>
     map_of m 2 = Some tbl \<and> map_of tbl [''A'', ''b''] = Some [''c'', ''d''] \<and>
     select_seed ascii_isupper pick_last () m = Inr ([''A'', ''b''], ()) \<and>
     generate_unrendered ascii_isupper pick_last () m m 4 1 = Inr (''A b d .'', ()) \<and>
     split_sp ''A b d .'' = [''A'', ''b'', ''d'', ''.''] \<and>
     generate_text ascii_isupper pick_last () m m 4 1 = Inr (''A b d.'', ())"
proof -
  have "map_of scenario_model 2 = Some
     [([''A'', ''b''], [''c'', ''d'']), ([''b'', ''c''], [''.'']), ([''c'', ''.''], [''A'']),
           ([''.'', ''A''], [''b'']), ([''b'', ''d''], [''.''])]"
    by (simp add: scenario_model_def)
  moreover have "select_seed ascii_isupper pick_last () scenario_model = Inr ([''A'', ''b''], ())"
    by code_simp
  moreover have "generate_unrendered ascii_isupper pick_last () scenario_model scenario_model 4 1
      = Inr (''A b d .'', ())"
    by code_simp
  moreover have "split_sp ''A b d .'' = [''A'', ''b'', ''d'', ''.'']"
    by simp
  ultimately show ?thesis
    using scenario_model_built scenario_generate_text by simp
qed

end
